theory Spec2Isabelle
  imports Main
begin

section \<open>Go values and runtime types, as package reflect shows them\<close>

text \<open>
  The dispatcher looks at its arguments only through package reflect: the kind of a type,
  the inputs and outputs of a function type, the direction and element type of a channel
  type, and the method set of any other type. A type descriptor carries exactly that.
  The method list of \<open>OtherT\<close> is the method set as \<open>NumMethod\<close> and \<open>Method\<close> report it;
  each method is given by its name and its inputs and outputs without the receiver. The
  string of a type is its full name, so that equal descriptors are the same Go type.
  \<open>reflect.TypeOf\<close> never yields an interface type; the accessors are total on one all
  the same. The methods of a function or channel type are left out, since \<open>newSink\<close>
  asks for the methods only of a type that is neither.
\<close>

datatype chandir = RecvDir | SendDir | BothDir

datatype kind = Func | Chan | Interface | Other

datatype gotype =
    FuncT "gotype list" "gotype list"
  | ChanT chandir gotype
  | InterfaceT string
  | OtherT string "(string \<times> gotype list \<times> gotype list) list"

text \<open>
  A value passed as \<open>interface{}\<close>: the nil interface, or a value of a runtime type. The
  number stands for the value itself (the contents of a struct, the identity of a closure
  or of a channel). \<open>reflect.ValueOf\<close> of a value is modelled by the value, the zero
  \<open>reflect.Value\<close> by \<open>NilValue\<close>.
\<close>

datatype govalue = NilValue | Val gotype nat

fun TypeOf :: "govalue \<Rightarrow> gotype option" where
  "TypeOf NilValue = None"
| "TypeOf (Val t n) = Some t"

definition ValueOf :: "govalue \<Rightarrow> govalue" where
  "ValueOf e = e"

fun Kind :: "gotype \<Rightarrow> kind" where
  "Kind (FuncT ins outs) = Func"
| "Kind (ChanT d t) = Chan"
| "Kind (InterfaceT n) = Interface"
| "Kind (OtherT n ms) = Other"

fun NumIn :: "gotype \<Rightarrow> nat" where
  "NumIn (FuncT ins outs) = length ins"
| "NumIn t = 0"

fun NumOut :: "gotype \<Rightarrow> nat" where
  "NumOut (FuncT ins outs) = length outs"
| "NumOut t = 0"

text \<open>\<open>In\<close> is only called below an arity check, so the index is in range.\<close>

fun InT :: "gotype \<Rightarrow> nat \<Rightarrow> gotype" where
  "InT (FuncT ins outs) i = ins ! i"
| "InT t i = t"

fun ChanDir :: "gotype \<Rightarrow> chandir" where
  "ChanDir (ChanT d t) = d"
| "ChanDir t = BothDir"

fun Elem :: "gotype \<Rightarrow> gotype" where
  "Elem (ChanT d t) = t"
| "Elem t = t"

fun NumMethod :: "gotype \<Rightarrow> nat" where
  "NumMethod (OtherT n ms) = length ms"
| "NumMethod t = 0"

text \<open>
  \<open>Method(i).Func\<close>: the method as a function whose first input is the receiver. It is
  kept as the method's name and that function type.
\<close>

type_synonym method_func = "string \<times> gotype"

fun MethodFunc :: "gotype \<Rightarrow> nat \<Rightarrow> method_func" where
  "MethodFunc (OtherT n ms) i =
     (case ms ! i of (name, ins, outs) \<Rightarrow> (name, FuncT (OtherT n ms # ins) outs))"
| "MethodFunc t i = ([], t)"

section \<open>Sinks\<close>

text \<open>
  A sink is a pointer to a \<open>sinkFunc\<close>, \<open>sinkChan\<close> or \<open>sinkMethod\<close> struct. The structs are
  never written after \<open>newSink\<close> has built them, so a pointer is modelled by the address of
  the allocation together with the struct's fields. Go compares two sinks by the pointer;
  two allocations never share an address.
\<close>

datatype sink =
    SinkFunc nat govalue
  | SinkChan nat govalue
  | SinkMethod nat govalue method_func

text \<open>What \<open>send\<close> asks of the outside world: a call of a listener or a channel send.\<close>

datatype action =
    Call govalue "govalue list"
  | ChanSend govalue govalue
  | MethodCall method_func "govalue list"

fun send :: "sink \<Rightarrow> govalue \<Rightarrow> action" where
  "send (SinkFunc a f) v = Call f [v]"
| "send (SinkChan a c) v = ChanSend c v"
| "send (SinkMethod a r m) v = MethodCall m [r, v]"

text \<open>
  Listeners are code of the caller. An action returns, panics, or blocks for ever (a send
  on a channel nobody drains); which of the three may depend on everything delivered so
  far. A panic of package reflect itself, as for a send on a closed channel, is an outcome
  \<open>Panics\<close> like a panic of the listener. The environment is a parameter of every publish.
\<close>

datatype outcome = Returns | Panics | Blocks

type_synonym delivery = "sink \<times> action"

type_synonym env = "delivery list \<Rightarrow> action \<Rightarrow> outcome"

section \<open>The subscription registry\<close>

text \<open>
  \<open>subscriptions\<close> is a Go map, that is a reference: nil, or the address of a map object.
  Map objects live in a store, a list indexed by address; \<open>makemap\<close> (Go's \<open>make\<close>)
  allocates at the end. The content of a map object is an association list with distinct
  keys; \<open>range\<close> goes through it in the order of the list, one of the orders Go may
  take. The slices stored in a map are always fresh copies owned by that map, so they are
  plain lists.
  A key is a \<open>reflect.Type\<close>, which may be nil; the registry functions only compare keys
  and sinks, so both are type parameters here.
\<close>

type_synonym ('k, 's) table = "('k \<times> 's list) list"

type_synonym ('k, 's) mapstore = "('k, 's) table list"

datatype subscriptions = NilMap | MapAt nat

fun mapassign :: "'k \<Rightarrow> 'v \<Rightarrow> ('k \<times> 'v) list \<Rightarrow> ('k \<times> 'v) list" where
  "mapassign k v [] = [(k, v)]"
| "mapassign k v ((k', v') # kvs) =
     (if k' = k then (k, v) # kvs else (k', v') # mapassign k v kvs)"

definition makemap :: "('k, 's) mapstore \<Rightarrow> ('k, 's) mapstore \<times> nat" where
  "makemap h = (h @ [[]], length h)"

text \<open>The entries of the map behind a reference; a nil map reads as empty.\<close>

fun entries :: "('k, 's) mapstore \<Rightarrow> subscriptions \<Rightarrow> ('k, 's) table" where
  "entries h NilMap = []"
| "entries h (MapAt a) = (if a < length h then h ! a else [])"

text \<open>\<open>v, ok := s[k]\<close> and \<open>s[k]\<close>.\<close>

definition lookup :: "('k, 's) mapstore \<Rightarrow> subscriptions \<Rightarrow> 'k \<Rightarrow> 's list option" where
  "lookup h s k = map_of (entries h s) k"

definition index :: "('k, 's) mapstore \<Rightarrow> subscriptions \<Rightarrow> 'k \<Rightarrow> 's list" where
  "index h s k = (case lookup h s k of None \<Rightarrow> [] | Some v \<Rightarrow> v)"

text \<open>\<open>clone[k] = v\<close> on the map object at address \<open>a\<close>.\<close>

definition assign :: "('k, 's) mapstore \<Rightarrow> nat \<Rightarrow> 'k \<Rightarrow> 's list \<Rightarrow> ('k, 's) mapstore" where
  "assign h a k v = h[a := mapassign k v (h ! a)]"

definition add ::
  "('k, 's) mapstore \<Rightarrow> subscriptions \<Rightarrow> 'k \<Rightarrow> 's \<Rightarrow> ('k, 's) mapstore \<times> subscriptions" where
  "add h s eventType newSink =
     (case makemap h of (h1, clone) \<Rightarrow>
        let h2 = fold (\<lambda>(k, v) h'. assign h' clone k ([] @ v)) (entries h s) h1;
            h3 = assign h2 clone eventType (index h2 (MapAt clone) eventType @ [newSink])
        in (h3, MapAt clone))"

definition remove ::
  "('k, 's) mapstore \<Rightarrow> subscriptions \<Rightarrow> 'k \<Rightarrow> 's \<Rightarrow> ('k, 's) mapstore \<times> subscriptions" where
  "remove h s eventType oldSink =
     (case lookup h s eventType of
        None \<Rightarrow> (h, s)
      | Some existing \<Rightarrow>
          let updated = fold (\<lambda>candidate updated.
                                if candidate \<noteq> oldSink then updated @ [candidate] else updated)
                             existing []
          in if length existing = length updated then (h, s)
             else (case makemap h of (h1, clone) \<Rightarrow>
                     let h2 = fold (\<lambda>(k, v) h'.
                                      if k \<noteq> eventType then assign h' clone k ([] @ v)
                                      else assign h' clone k updated)
                                   (entries h s) h1
                     in (h2, MapAt clone)))"

text \<open>
  The loop of \<open>publish\<close>: each sink is sent the value in turn and the delivery is recorded;
  a send that does not return ends the loop with its outcome.
\<close>

fun sendAll :: "env \<Rightarrow> sink list \<Rightarrow> govalue \<Rightarrow> delivery list \<Rightarrow> delivery list \<times> outcome" where
  "sendAll env [] v tr = (tr, Returns)"
| "sendAll env (s # ss) v tr =
     (case env tr (send s v) of
        Returns \<Rightarrow> sendAll env ss v (tr @ [(s, send s v)])
      | Panics \<Rightarrow> (tr @ [(s, send s v)], Panics)
      | Blocks \<Rightarrow> (tr @ [(s, send s v)], Blocks))"

type_synonym key = "gotype option"

definition publish ::
  "env \<Rightarrow> (key, sink) mapstore \<Rightarrow> subscriptions \<Rightarrow> govalue \<Rightarrow> delivery list
     \<Rightarrow> delivery list \<times> outcome" where
  "publish env h s e tr = (let v = ValueOf e in sendAll env (index h s (TypeOf e)) v tr)"

text \<open>Well-formed stores and references: keys of a map are distinct, a reference is allocated.\<close>

definition wf_store :: "('k, 's) mapstore \<Rightarrow> bool" where
  "wf_store h = list_all (\<lambda>t. distinct (map fst t)) h"

fun allocated :: "('k, 's) mapstore \<Rightarrow> subscriptions \<Rightarrow> bool" where
  "allocated h NilMap = True"
| "allocated h (MapAt a) = (a < length h)"

section \<open>The listener inspector\<close>

datatype error =
    ErrInvalidListener
  | ErrInvalidFunction
  | ErrInvalidChannel
  | ErrInvalidEventType

text \<open>
  \<open>newSink\<close> allocates the sink struct inside the accepted branch, before the check of
  the event type. The first argument is the number of sinks allocated so far, which is the
  address of the next one; the new count is returned with the result.
\<close>

definition newSink :: "nat \<Rightarrow> govalue \<Rightarrow> nat \<times> (error + gotype \<times> sink)" where
  "newSink n t =
     (case TypeOf t of
        None \<Rightarrow> (n, Inl ErrInvalidListener)
      | Some listenerType \<Rightarrow>
          (case
             (if Kind listenerType = Func then
                (if NumIn listenerType \<noteq> 1 \<or> NumOut listenerType \<noteq> 0
                 then (n, Inl ErrInvalidFunction)
                 else (Suc n, Inr (InT listenerType 0, SinkFunc n (ValueOf t))))
              else if Kind listenerType = Chan then
                (if ChanDir listenerType = RecvDir
                 then (n, Inl ErrInvalidChannel)
                 else (Suc n, Inr (Elem listenerType, SinkChan n (ValueOf t))))
              else if NumMethod listenerType = 1 then
                (let m = MethodFunc listenerType 0 in
                 if NumIn (snd m) \<noteq> 2 \<or> NumOut (snd m) \<noteq> 0
                 then (n, Inl ErrInvalidFunction)
                 else (Suc n, Inr (InT (snd m) 1, SinkMethod n (ValueOf t) m)))
              else (n, Inl ErrInvalidListener))
           of
             (n', Inl err) \<Rightarrow> (n', Inl err)
           | (n', Inr (eventType, s)) \<Rightarrow>
               if Kind eventType = Interface then (n', Inl ErrInvalidEventType)
               else (n', Inr (eventType, s))))"

section \<open>The hub\<close>

text \<open>
  The state is the hub together with the part of the Go heap it reaches: the map objects,
  the count of sink structs, and the closures that \<open>cancel\<close> has returned, each with
  the event type and sink it captured and the state of its \<open>sync.Once\<close>. A \<open>Cancel\<close> value
  is the address of its closure. \<open>cell\<close> is the \<open>atomic.Value\<close>: empty until the first
  store. The model is sequential, so \<open>subscribeLock\<close> is always free when it is taken
  and is left out.
\<close>

record closure =
  cEventType :: gotype
  cSink :: sink
  onceDone :: bool

record world =
  maps :: "(key, sink) mapstore"
  nsinks :: nat
  closures :: "closure list"
  cell :: "subscriptions option"

definition New :: world where
  "New = \<lparr>maps = [], nsinks = 0, closures = [], cell = None\<rparr>"

definition load :: "world \<Rightarrow> subscriptions" where
  "load w = (case cell w of None \<Rightarrow> NilMap | Some v \<Rightarrow> v)"

definition store :: "world \<Rightarrow> subscriptions \<Rightarrow> world" where
  "store w new = w\<lparr>cell := Some new\<rparr>"

definition Publish :: "env \<Rightarrow> world \<Rightarrow> govalue \<Rightarrow> delivery list \<Rightarrow> delivery list \<times> outcome" where
  "Publish env w e tr = publish env (maps w) (load w) e tr"

definition cancel :: "world \<Rightarrow> gotype \<Rightarrow> sink \<Rightarrow> world \<times> nat" where
  "cancel w eventType s =
     (w\<lparr>closures := closures w @ [\<lparr>cEventType = eventType, cSink = s, onceDone = False\<rparr>]\<rparr>,
      length (closures w))"

definition Subscribe :: "world \<Rightarrow> govalue \<Rightarrow> world \<times> nat option \<times> error option" where
  "Subscribe w l =
     (case newSink (nsinks w) l of
        (n, Inl err) \<Rightarrow> (w\<lparr>nsinks := n\<rparr>, None, Some err)
      | (n, Inr (eventType, s)) \<Rightarrow>
          (case add (maps w) (load w) (Some eventType) s of
             (m, new) \<Rightarrow>
               (case cancel (store (w\<lparr>maps := m, nsinks := n\<rparr>) new) eventType s of
                  (w', c) \<Rightarrow> (w', Some c, None))))"

text \<open>
  Calling a \<open>Cancel\<close>: \<open>once.Do\<close> runs the removal on the first call only. An address
  that no closure has is not a \<open>Cancel\<close> value of the program; the call is then skipped.
\<close>

definition Cancel :: "world \<Rightarrow> nat \<Rightarrow> world" where
  "Cancel w c =
     (if c < length (closures w) then
        (let cl = closures w ! c in
         if onceDone cl then w
         else (case remove (maps w) (load w) (Some (cEventType cl)) (cSink cl) of
                 (m, new) \<Rightarrow>
                   store (w\<lparr>maps := m, closures := (closures w)[c := cl\<lparr>onceDone := True\<rparr>]\<rparr>) new))
      else w)"

text \<open>Every state of a hub is reached from \<open>New\<close> by subscribing and cancelling.\<close>

datatype call = DoSubscribe govalue | DoCancel nat

fun step :: "world \<Rightarrow> call \<Rightarrow> world" where
  "step w (DoSubscribe l) = fst (Subscribe w l)"
| "step w (DoCancel c) = Cancel w c"

definition run :: "call list \<Rightarrow> world" where
  "run cs = foldl step New cs"

section \<open>Invariants\<close>

text \<open>The map object that the copying loops of \<open>add\<close> and \<open>remove\<close> build.\<close>

definition cloned :: "('k \<Rightarrow> 's list \<Rightarrow> 's list) \<Rightarrow> ('k, 's) table \<Rightarrow> ('k, 's) table" where
  "cloned f al = fold (\<lambda>(k, v) t. mapassign k (f k v) t) al []"

fun addr :: "sink \<Rightarrow> nat" where
  "addr (SinkFunc a f) = a"
| "addr (SinkChan a c) = a"
| "addr (SinkMethod a r m) = a"

text \<open>The event type a sink was built for, read back from its fields.\<close>

fun sinkKey :: "sink \<Rightarrow> key" where
  "sinkKey (SinkFunc a f) = map_option (\<lambda>t. InT t 0) (TypeOf f)"
| "sinkKey (SinkChan a c) = map_option Elem (TypeOf c)"
| "sinkKey (SinkMethod a r m) = Some (InT (snd m) 1)"


definition inv :: "world \<Rightarrow> bool" where
  "inv w \<longleftrightarrow>
     wf_store (maps w) \<and> allocated (maps w) (load w) \<and>
     (\<forall>k ss. lookup (maps w) (load w) k = Some ss \<longrightarrow>
        k \<noteq> None \<and> (\<forall>s\<in>set ss. addr s < nsinks w \<and> sinkKey s = k)) \<and>
     (\<forall>cl\<in>set (closures w).
        addr (cSink cl) < nsinks w \<and> sinkKey (cSink cl) = Some (cEventType cl) \<and>
        (onceDone cl \<longrightarrow> cSink cl \<notin> set (index (maps w) (load w) (Some (cEventType cl)))))"

section \<open>Values for the worked examples\<close>

text \<open>
  The types and listeners of the repository's tests: \<open>TestEvent\<close>, \<open>string\<close>, two
  functions \<open>func(TestEvent)\<close>, a \<open>*mockListener\<close> with its one method \<open>OnEvent\<close>, and a
  channel of \<open>TestEvent\<close>.
\<close>

definition evT :: gotype where
  "evT = OtherT ''TestEvent'' []"

definition strT :: gotype where
  "strT = OtherT ''string'' []"

definition exF :: govalue where
  "exF = Val (FuncT [evT] []) 1"

definition exG :: govalue where
  "exG = Val (FuncT [evT] []) 2"

definition exL :: govalue where
  "exL = Val (OtherT ''*mockListener'' [(''OnEvent'', [evT], [])]) 3"

definition exC :: govalue where
  "exC = Val (ChanT BothDir evT) 4"

definition exV :: govalue where
  "exV = Val evT 7"

definition allReturn :: env where
  "allReturn tr a = Returns"

text \<open>An environment in which the listener \<open>g\<close> panics whenever it is called.\<close>

definition panicsIn :: "govalue \<Rightarrow> env" where
  "panicsIn g tr a = (case a of Call f args \<Rightarrow> if f = g then Panics else Returns
                       | ChanSend c v \<Rightarrow> Returns
                       | MethodCall m args \<Rightarrow> Returns)"

text \<open>A store with one map object, in which the sink of \<open>exF\<close> is listed twice.\<close>

definition exStore :: "(key, sink) mapstore" where
  "exStore = [[(Some evT, [SinkFunc 0 exF, SinkFunc 1 exG, SinkFunc 0 exF]),
               (Some strT, [])]]"

text \<open>A store with one map object listing three different sinks for \<open>TestEvent\<close>.\<close>

definition exStore2 :: "(key, sink) mapstore" where
  "exStore2 = [[(Some evT, [SinkFunc 0 exF, SinkFunc 1 exG, SinkChan 2 exC])]]"

section \<open>Lemmas on map objects\<close>

lemma map_of_mapassign: "map_of (mapassign k v al) = (map_of al)(k \<mapsto> v)"
  by (induction al) (auto simp: fun_eq_iff)

lemma keys_mapassign: "fst ` set (mapassign k v al) = insert k (fst ` set al)"
  by (induction al) (force split: if_splits)+

lemma distinct_mapassign: "distinct (map fst al) \<Longrightarrow> distinct (map fst (mapassign k v al))"
  by (induction al) (auto simp: keys_mapassign)

lemma fold_assign:
  "c < length h \<Longrightarrow>
   fold (\<lambda>(k, v) h'. assign h' c k (f k v)) al h
     = h[c := fold (\<lambda>(k, v) t. mapassign k (f k v) t) al (h ! c)]"
  by (induction al arbitrary: h) (auto simp: assign_def)

lemma map_of_fold_mapassign:
  "distinct (map fst al) \<Longrightarrow>
   map_of (fold (\<lambda>(k, v) t. mapassign k (f k v) t) al t) k
     = (case map_of al k of None \<Rightarrow> map_of t k | Some v \<Rightarrow> Some (f k v))"
proof (induction al arbitrary: t)
  case Nil
  then show ?case by simp
next
  case (Cons kv al)
  obtain k' v' where kv: "kv = (k', v')" by (cases kv)
  from Cons.prems kv have d: "distinct (map fst al)" and n: "k' \<notin> fst ` set al" by auto
  from n have none: "map_of al k' = None" by (simp add: map_of_eq_None_iff)
  show ?case
    using Cons.IH [OF d, of "mapassign k' (f k' v') t"] none
    by (auto simp: kv map_of_mapassign split: option.splits)
qed

lemma distinct_fold_mapassign:
  "distinct (map fst t) \<Longrightarrow> distinct (map fst (fold (\<lambda>(k, v) t. mapassign k (f k v) t) al t))"
  by (induction al arbitrary: t) (auto simp: distinct_mapassign)

lemma fold_filter:
  "fold (\<lambda>candidate updated. if candidate \<noteq> x then updated @ [candidate] else updated) xs acc
     = acc @ filter (\<lambda>candidate. candidate \<noteq> x) xs"
  by (induction xs arbitrary: acc) auto

lemma entries_distinct: "wf_store h \<Longrightarrow> distinct (map fst (entries h s))"
  by (cases s) (auto simp: wf_store_def list_all_length)

lemma clone_loop:
  "fold (\<lambda>(k, v) h'. assign h' (length h) k (f k v)) al (h @ [[]])
     = h @ [fold (\<lambda>(k, v) t. mapassign k (f k v) t) al []]"
  using fold_assign [of "length h" "h @ [[]]" f al] by simp

lemma assign_last: "assign (h @ [T]) (length h) k v = h @ [mapassign k v T]"
  by (simp add: assign_def)

lemma index_last:
  "index (h @ [T]) (MapAt (length h)) k = (case map_of T k of None \<Rightarrow> [] | Some v \<Rightarrow> v)"
  by (simp add: index_def lookup_def)

lemma lookup_last: "lookup (h @ [T]) (MapAt (length h)) k = map_of T k"
  by (simp add: lookup_def)

lemma add_unfold:
  "add h s t x =
     (h @ [mapassign t ((case map_of (cloned (\<lambda>k v. v) (entries h s)) t of
                           None \<Rightarrow> [] | Some v \<Rightarrow> v) @ [x])
             (cloned (\<lambda>k v. v) (entries h s))],
      MapAt (length h))"
proof -
  have loop: "fold (\<lambda>(k, v) h'. assign h' (length h) k ([] @ v)) (entries h s) (h @ [[]])
                = h @ [cloned (\<lambda>k v. v) (entries h s)]"
    using clone_loop [of h "\<lambda>k v. v" "entries h s"] by (simp add: cloned_def)
  show ?thesis
    unfolding add_def makemap_def prod.case Let_def loop
    by (simp add: assign_last index_last)
qed

lemma map_of_cloned:
  "distinct (map fst al) \<Longrightarrow>
   map_of (cloned f al) k = (case map_of al k of None \<Rightarrow> None | Some v \<Rightarrow> Some (f k v))"
  using map_of_fold_mapassign [of al f "[]" k] by (simp add: cloned_def split: option.splits)

lemma distinct_cloned: "distinct (map fst (cloned f al))"
  using distinct_fold_mapassign [of "[]" f al] by (simp add: cloned_def)

lemma add_lookup:
  assumes "wf_store h"
  shows "lookup (fst (add h s t x)) (snd (add h s t x)) k
           = (if k = t then Some (index h s t @ [x]) else lookup h s k)"
  using map_of_cloned [OF entries_distinct [OF assms], of "\<lambda>k v. v" s]
  by (simp add: add_unfold lookup_last lookup_def index_def map_of_mapassign split: option.splits)

lemma add_wf: "wf_store h \<Longrightarrow> wf_store (fst (add h s t x))"
  by (simp add: add_unfold wf_store_def distinct_mapassign distinct_cloned)

lemma remove_unfold:
  "remove h s t x =
     (case lookup h s t of
        None \<Rightarrow> (h, s)
      | Some existing \<Rightarrow>
          if x \<notin> set existing then (h, s)
          else (h @ [cloned (\<lambda>k v. if k \<noteq> t then v else filter (\<lambda>c. c \<noteq> x) existing)
                       (entries h s)],
                MapAt (length h)))"
proof (cases "lookup h s t")
  case None
  then show ?thesis by (simp add: remove_def)
next
  case (Some existing)
  let ?u = "filter (\<lambda>c. c \<noteq> x) existing"
  have len: "length existing = length ?u \<longleftrightarrow> x \<notin> set existing"
  proof (cases "x \<in> set existing")
    case True
    then have "length ?u < length existing" by (simp add: length_filter_less)
    with True show ?thesis by simp
  next
    case False
    then have "?u = existing" by (auto simp: filter_id_conv)
    with False show ?thesis by simp
  qed
  have f: "(\<lambda>(k, v) h'. if k \<noteq> t then assign h' (length h) k v
                           else assign h' (length h) k ?u)
             = (\<lambda>(k, v) h'. assign h' (length h) k (if k \<noteq> t then v else ?u))"
    by (auto simp: fun_eq_iff)
  have loop: "fold (\<lambda>(k, v) h'. if k \<noteq> t then assign h' (length h) k v
                                  else assign h' (length h) k ?u) (entries h s) (h @ [[]])
                = h @ [cloned (\<lambda>k v. if k \<noteq> t then v else ?u) (entries h s)]"
    unfolding f using clone_loop [of h "\<lambda>k v. if k \<noteq> t then v else ?u" "entries h s"]
    by (simp add: cloned_def)
  show ?thesis
    unfolding remove_def makemap_def Some option.case fold_filter append_Nil Let_def prod.case
    using len by (simp add: loop)
qed

lemma remove_absent:
  "lookup h s t = None \<or> x \<notin> set (index h s t) \<Longrightarrow> remove h s t x = (h, s)"
  by (cases "lookup h s t") (auto simp: remove_unfold index_def)

lemma remove_present:
  "x \<in> set (index h s t) \<Longrightarrow>
   snd (remove h s t x) = MapAt (length h) \<and> length (fst (remove h s t x)) = Suc (length h)"
  by (cases "lookup h s t") (auto simp: remove_unfold index_def)

lemma remove_take: "take (length h) (fst (remove h s t x)) = h"
  by (cases "lookup h s t") (auto simp: remove_unfold)

lemma remove_lookup:
  assumes "wf_store h"
  shows "lookup (fst (remove h s t x)) (snd (remove h s t x)) k
           = (if k = t then map_option (filter (\<lambda>c. c \<noteq> x)) (lookup h s t) else lookup h s k)"
proof (cases "lookup h s t")
  case None
  then show ?thesis by (simp add: remove_unfold)
next
  case (Some existing)
  show ?thesis
  proof (cases "x \<in> set existing")
    case False
    then have "filter (\<lambda>c. c \<noteq> x) existing = existing" by (auto simp: filter_id_conv)
    with False Some show ?thesis by (simp add: remove_unfold)
  next
    case True
    show ?thesis
      using Some True
        map_of_cloned [OF entries_distinct [OF assms],
          of "\<lambda>k v. if k \<noteq> t then v else filter (\<lambda>c. c \<noteq> x) existing" s k]
      by (auto simp: remove_unfold lookup_last lookup_def split: option.splits)
  qed
qed

lemma remove_wf: "wf_store h \<Longrightarrow> wf_store (fst (remove h s t x))"
  by (cases "lookup h s t") (auto simp: remove_unfold wf_store_def distinct_cloned)

section \<open>The registry operations\<close>

lemma allocated_neq: "allocated h s \<Longrightarrow> MapAt (length h) \<noteq> s"
  by (cases s) auto

lemma entries_take:
  "allocated h s \<Longrightarrow> take (length h) h' = h \<Longrightarrow> entries h' s = entries h s"
proof (cases s)
  case NilMap
  then show ?thesis by simp
next
  case (MapAt a)
  assume "allocated h s" and t: "take (length h) h' = h"
  with MapAt have a: "a < length h" by simp
  from t have "length h \<le> length h'" by (metis length_take min.cobounded1)
  moreover from t a have "h' ! a = h ! a" by (metis nth_take)
  ultimately show ?thesis using MapAt a by simp
qed

text \<open>
  C4. \<open>add\<close> returns a new map object: its list for the given type is the receiver's
  list with the sink appended at the end, every other type has the list it has in the
  receiver, and the receiver itself, like every map object that existed before, is left as
  it was.
\<close>

theorem add_appends_to_clone:
  assumes "wf_store h" and "allocated h s" and "add h s t x = (h', r)"
  shows "lookup h' r t = Some (index h s t @ [x]) \<and>
         (\<forall>k. k \<noteq> t \<longrightarrow> lookup h' r k = lookup h s k) \<and>
         r = MapAt (length h) \<and> r \<noteq> s \<and>
         take (length h) h' = h \<and> entries h' s = entries h s"
proof -
  from assms(3) have h': "h' = fst (add h s t x)" and r: "r = snd (add h s t x)" by simp_all
  have l: "\<And>k. lookup h' r k = (if k = t then Some (index h s t @ [x]) else lookup h s k)"
    unfolding h' r by (rule add_lookup [OF assms(1)])
  have rr: "r = MapAt (length h)" and tk: "take (length h) h' = h"
    unfolding h' r by (simp_all add: add_unfold)
  from rr allocated_neq [OF assms(2)] have "r \<noteq> s" by simp
  with l rr tk entries_take [OF assms(2) tk] show ?thesis by simp
qed

theorem add_appends_to_clone_witness:
  "wf_store exStore \<and> allocated exStore (MapAt 0) \<and>
   lookup (fst (add exStore (MapAt 0) (Some evT) (SinkFunc 2 exG)))
          (snd (add exStore (MapAt 0) (Some evT) (SinkFunc 2 exG))) (Some evT)
     = Some [SinkFunc 0 exF, SinkFunc 1 exG, SinkFunc 0 exF, SinkFunc 2 exG] \<and>
   lookup (fst (add exStore (MapAt 0) (Some evT) (SinkFunc 2 exG)))
          (snd (add exStore (MapAt 0) (Some evT) (SinkFunc 2 exG))) (Some strT) = Some [] \<and>
   entries (fst (add exStore (MapAt 0) (Some evT) (SinkFunc 2 exG))) (MapAt 0)
     = entries exStore (MapAt 0)"
proof -
  let ?a = "add exStore (MapAt 0) (Some evT) (SinkFunc 2 exG)"
  have wf: "wf_store exStore" by (simp add: wf_store_def exStore_def evT_def strT_def)
  have al: "allocated exStore (MapAt 0)" by (simp add: exStore_def)
  have ne: "Some strT \<noteq> Some evT" by (simp add: evT_def strT_def)
  have i: "index exStore (MapAt 0) (Some evT) = [SinkFunc 0 exF, SinkFunc 1 exG, SinkFunc 0 exF]"
    by (simp add: index_def lookup_def exStore_def)
  have l: "lookup exStore (MapAt 0) (Some strT) = Some []"
    using ne by (simp add: lookup_def exStore_def)
  note t = add_appends_to_clone [OF wf al surjective_pairing, of "Some evT" "SinkFunc 2 exG"]
  from t have 1: "lookup (fst ?a) (snd ?a) (Some evT)
                    = Some (index exStore (MapAt 0) (Some evT) @ [SinkFunc 2 exG])" by blast
  from t ne have 2: "lookup (fst ?a) (snd ?a) (Some strT) = lookup exStore (MapAt 0) (Some strT)"
    by blast
  from t have 3: "entries (fst ?a) (MapAt 0) = entries exStore (MapAt 0)" by blast
  show ?thesis using wf al 1 2 3 by (simp add: i l)
qed

text \<open>
  C3. \<open>remove\<close> gives a registry whose list for the type is the receiver's list without
  the sink (compared with \<open>!=\<close>), the lists of all other types being those of the receiver.
  When the sink is in the list this registry is a new map object; when the type has no list
  or the list does not hold the sink, the receiver itself is returned and no map object is
  created or changed.
\<close>

theorem remove_drops_pair:
  assumes "wf_store h" and "allocated h s" and "remove h s t x = (h', r)"
  shows "(\<forall>k. lookup h' r k =
              (if k = t then map_option (filter (\<lambda>c. c \<noteq> x)) (lookup h s t) else lookup h s k)) \<and>
         take (length h) h' = h \<and>
         (x \<in> set (index h s t) \<longrightarrow> r = MapAt (length h) \<and> r \<noteq> s \<and> length h' = Suc (length h)) \<and>
         (lookup h s t = None \<or> x \<notin> set (index h s t) \<longrightarrow> h' = h \<and> r = s)"
proof -
  from assms(3) have h': "h' = fst (remove h s t x)" and r: "r = snd (remove h s t x)"
    by simp_all
  have "\<And>k. lookup h' r k =
          (if k = t then map_option (filter (\<lambda>c. c \<noteq> x)) (lookup h s t) else lookup h s k)"
    unfolding h' r by (rule remove_lookup [OF assms(1)])
  moreover have "take (length h) h' = h"
    unfolding h' by (rule remove_take)
  moreover have "x \<in> set (index h s t) \<Longrightarrow> r = MapAt (length h) \<and> r \<noteq> s \<and> length h' = Suc (length h)"
    unfolding h' r using remove_present [of x h s t] allocated_neq [OF assms(2)] by simp
  moreover have "lookup h s t = None \<or> x \<notin> set (index h s t) \<Longrightarrow> h' = h \<and> r = s"
    unfolding h' r using remove_absent [of h s t x] by simp
  ultimately show ?thesis by blast
qed

theorem remove_drops_pair_witness:
  "wf_store exStore \<and> allocated exStore (MapAt 0) \<and>
   lookup (fst (remove exStore (MapAt 0) (Some evT) (SinkFunc 1 exG)))
          (snd (remove exStore (MapAt 0) (Some evT) (SinkFunc 1 exG))) (Some evT)
     = Some [SinkFunc 0 exF, SinkFunc 0 exF] \<and>
   snd (remove exStore (MapAt 0) (Some evT) (SinkFunc 1 exG)) = MapAt 1 \<and>
   remove exStore (MapAt 0) (Some strT) (SinkFunc 1 exG) = (exStore, MapAt 0) \<and>
   remove exStore (MapAt 0) None (SinkFunc 1 exG) = (exStore, MapAt 0)"
proof -
  let ?x = "SinkFunc 1 exG"
  let ?a = "remove exStore (MapAt 0) (Some evT) ?x"
  let ?b = "remove exStore (MapAt 0) (Some strT) ?x"
  let ?c = "remove exStore (MapAt 0) None ?x"
  have wf: "wf_store exStore" by (simp add: wf_store_def exStore_def evT_def strT_def)
  have al: "allocated exStore (MapAt 0)" by (simp add: exStore_def)
  have ne: "Some strT \<noteq> Some evT" "exF \<noteq> exG"
    by (simp_all add: evT_def strT_def exF_def exG_def)
  have l: "lookup exStore (MapAt 0) (Some evT) = Some [SinkFunc 0 exF, ?x, SinkFunc 0 exF]"
    by (simp add: lookup_def exStore_def)
  have i: "index exStore (MapAt 0) (Some evT) = [SinkFunc 0 exF, ?x, SinkFunc 0 exF]"
    by (simp add: index_def l)
  have j: "index exStore (MapAt 0) (Some strT) = []"
    using ne by (simp add: index_def lookup_def exStore_def)
  have n: "lookup exStore (MapAt 0) None = None"
    by (simp add: lookup_def exStore_def)
  have len: "length exStore = 1" by (simp add: exStore_def)
  note ta = remove_drops_pair [OF wf al surjective_pairing, of "Some evT" ?x]
  note tb = remove_drops_pair [OF wf al surjective_pairing, of "Some strT" ?x]
  note tc = remove_drops_pair [OF wf al surjective_pairing, of None ?x]
  from ta have "lookup (fst ?a) (snd ?a) (Some evT)
                  = map_option (filter (\<lambda>c. c \<noteq> ?x)) (lookup exStore (MapAt 0) (Some evT))"
    by simp
  with ne have 1: "lookup (fst ?a) (snd ?a) (Some evT) = Some [SinkFunc 0 exF, SinkFunc 0 exF]"
    by (simp add: l)
  from ta i have 2: "snd ?a = MapAt 1" by (simp add: len)
  from tb j have 3: "?b = (exStore, MapAt 0)" by (simp add: prod_eq_iff)
  from tc n have 4: "?c = (exStore, MapAt 0)" by (simp add: prod_eq_iff)
  show ?thesis using wf al 1 2 3 4 by simp
qed

text \<open>
  C9. When the sink occurs in the type's list, at one position or at several, the list of
  the registry that \<open>remove\<close> returns holds it nowhere; the other sinks keep their order.
\<close>

theorem remove_drops_every_occurrence:
  assumes "wf_store h" and "remove h s t x = (h', r)" and "1 \<le> count_list (index h s t) x"
  shows "count_list (index h' r t) x = 0 \<and>
         index h' r t = filter (\<lambda>c. c \<noteq> x) (index h s t)"
proof -
  from assms(2) have h': "h' = fst (remove h s t x)" and r: "r = snd (remove h s t x)"
    by simp_all
  have "lookup h' r t = map_option (filter (\<lambda>c. c \<noteq> x)) (lookup h s t)"
    unfolding h' r by (simp add: remove_lookup [OF assms(1)])
  then have i: "index h' r t = filter (\<lambda>c. c \<noteq> x) (index h s t)"
    by (simp add: index_def split: option.splits)
  then have "x \<notin> set (index h' r t)" by simp
  then have "count_list (index h' r t) x = 0" by (simp add: count_list_0_iff)
  with i show ?thesis by simp
qed

theorem remove_drops_every_occurrence_witness:
  "wf_store exStore \<and> count_list (index exStore (MapAt 0) (Some evT)) (SinkFunc 0 exF) = 2 \<and>
   index (fst (remove exStore (MapAt 0) (Some evT) (SinkFunc 0 exF)))
         (snd (remove exStore (MapAt 0) (Some evT) (SinkFunc 0 exF))) (Some evT)
     = [SinkFunc 1 exG]"
proof -
  let ?x = "SinkFunc 0 exF"
  let ?a = "remove exStore (MapAt 0) (Some evT) ?x"
  have wf: "wf_store exStore" by (simp add: wf_store_def exStore_def evT_def strT_def)
  have ne: "exF \<noteq> exG" by (simp add: exF_def exG_def)
  have i: "index exStore (MapAt 0) (Some evT) = [?x, SinkFunc 1 exG, ?x]"
    by (simp add: index_def lookup_def exStore_def)
  have c: "count_list (index exStore (MapAt 0) (Some evT)) ?x = 2"
    using ne by (simp add: i)
  then have c1: "1 \<le> count_list (index exStore (MapAt 0) (Some evT)) ?x" by simp
  from remove_drops_every_occurrence [OF wf surjective_pairing c1]
  have "index (fst ?a) (snd ?a) (Some evT) = filter (\<lambda>c. c \<noteq> ?x) (index exStore (MapAt 0) (Some evT))"
    by simp
  with ne have "index (fst ?a) (snd ?a) (Some evT) = [SinkFunc 1 exG]" by (simp add: i)
  with wf c show ?thesis by simp
qed

section \<open>Publishing on a registry\<close>

lemma sendAll_shape:
  "sendAll env ss v tr = (tr', out) \<Longrightarrow>
   \<exists>n\<le>length ss. tr' = tr @ map (\<lambda>s. (s, send s v)) (take n ss) \<and>
     (if out = Returns then n = length ss
      else 0 < n \<and> env (tr @ map (\<lambda>s. (s, send s v)) (take (n - 1) ss)) (send (ss ! (n - 1)) v) = out)"
proof (induction ss arbitrary: tr)
  case Nil
  then show ?case by auto
next
  case (Cons s ss)
  show ?case
  proof (cases "env tr (send s v)")
    case Returns
    with Cons.prems have "sendAll env ss v (tr @ [(s, send s v)]) = (tr', out)" by simp
    from Cons.IH [OF this] obtain n where n: "n \<le> length ss"
      and t: "tr' = (tr @ [(s, send s v)]) @ map (\<lambda>s. (s, send s v)) (take n ss)"
      and o: "if out = Returns then n = length ss
              else 0 < n \<and> env ((tr @ [(s, send s v)]) @ map (\<lambda>s. (s, send s v)) (take (n - 1) ss))
                                  (send (ss ! (n - 1)) v) = out"
      by blast
    show ?thesis
    proof (intro exI [of _ "Suc n"] conjI)
      show "Suc n \<le> length (s # ss)" using n by simp
      show "tr' = tr @ map (\<lambda>s. (s, send s v)) (take (Suc n) (s # ss))" using t by simp
      show "if out = Returns then Suc n = length (s # ss)
            else 0 < Suc n \<and>
                 env (tr @ map (\<lambda>s. (s, send s v)) (take (Suc n - 1) (s # ss)))
                     (send ((s # ss) ! (Suc n - 1)) v) = out"
      proof (cases "out = Returns")
        case True
        with o show ?thesis by simp
      next
        case False
        with o have pos: "0 < n" and e: "env ((tr @ [(s, send s v)]) @ map (\<lambda>s. (s, send s v)) (take (n - 1) ss))
                                  (send (ss ! (n - 1)) v) = out" by simp_all
        from pos obtain m where m: "n = Suc m" by (cases n) auto
        from e False show ?thesis by (simp add: m)
      qed
    qed
  next
    case Panics
    with Cons.prems have "tr' = tr @ [(s, send s v)]" "out = Panics" by simp_all
    with Panics show ?thesis by (intro exI [of _ 1]) simp
  next
    case Blocks
    with Cons.prems have "tr' = tr @ [(s, send s v)]" "out = Blocks" by simp_all
    with Blocks show ?thesis by (intro exI [of _ 1]) simp
  qed
qed

lemma sendAll_all_return:
  "(\<forall>i<length ss. env (tr @ map (\<lambda>s. (s, send s v)) (take i ss)) (send (ss ! i) v) = Returns) \<Longrightarrow>
   sendAll env ss v tr = (tr @ map (\<lambda>s. (s, send s v)) ss, Returns)"
proof (induction ss arbitrary: tr)
  case Nil
  then show ?case by simp
next
  case (Cons s ss)
  from Cons.prems have first: "env tr (send s v) = Returns" by fastforce
  have "\<forall>i<length ss. env ((tr @ [(s, send s v)]) @ map (\<lambda>s. (s, send s v)) (take i ss))
                             (send (ss ! i) v) = Returns"
  proof (intro allI impI)
    fix i assume "i < length ss"
    then have "Suc i < length (s # ss)" by simp
    from Cons.prems [rule_format, OF this] show
      "env ((tr @ [(s, send s v)]) @ map (\<lambda>s. (s, send s v)) (take i ss)) (send (ss ! i) v) = Returns"
      by simp
  qed
  from Cons.IH [OF this] first show ?case by simp
qed

lemma sendAll_append:
  "sendAll env pre v tr = (tr1, Returns) \<Longrightarrow>
   sendAll env (pre @ post) v tr = sendAll env post v tr1"
proof (induction pre arbitrary: tr)
  case Nil
  then show ?case by simp
next
  case (Cons s pre)
  then show ?case by (cases "env tr (send s v)") simp_all
qed




text \<open>
  C7. When the deliveries to the sinks in front of a sink have returned and the delivery
  to that sink panics, \<open>publish\<close> ends with the panic: the deliveries made are those to the
  sinks in front and the one that panicked, once each, and no sink behind it is invoked.
\<close>

theorem panic_aborts_delivery:
  assumes "index h r (TypeOf e) = pre @ s # post"
    and "\<forall>i<length pre. env (tr @ map (\<lambda>s. (s, send s (ValueOf e))) (take i pre))
                              (send (pre ! i) (ValueOf e)) = Returns"
    and "env (tr @ map (\<lambda>s. (s, send s (ValueOf e))) pre) (send s (ValueOf e)) = Panics"
  shows "publish env h r e tr
           = (tr @ map (\<lambda>s. (s, send s (ValueOf e))) pre @ [(s, send s (ValueOf e))], Panics)"
proof -
  from sendAll_all_return [OF assms(2)]
  have "sendAll env pre (ValueOf e) tr = (tr @ map (\<lambda>s. (s, send s (ValueOf e))) pre, Returns)" .
  from sendAll_append [OF this, of "s # post"] assms(3)
  have "sendAll env (pre @ s # post) (ValueOf e) tr
          = (tr @ map (\<lambda>s. (s, send s (ValueOf e))) pre @ [(s, send s (ValueOf e))], Panics)"
    by simp
  with assms(1) show ?thesis by (simp add: publish_def)
qed

theorem panic_aborts_delivery_witness:
  "index exStore2 (MapAt 0) (TypeOf exV) = [SinkFunc 0 exF] @ SinkFunc 1 exG # [SinkChan 2 exC] \<and>
   publish (panicsIn exG) exStore2 (MapAt 0) exV []
     = ([(SinkFunc 0 exF, Call exF [exV]), (SinkFunc 1 exG, Call exG [exV])], Panics)"
proof -
  have ne: "exF \<noteq> exG" by (simp add: exF_def exG_def)
  have i: "index exStore2 (MapAt 0) (TypeOf exV) = [SinkFunc 0 exF] @ SinkFunc 1 exG # [SinkChan 2 exC]"
    by (simp add: index_def lookup_def exStore2_def exV_def)
  have a: "\<forall>i<length [SinkFunc 0 exF].
             panicsIn exG ([] @ map (\<lambda>s. (s, send s (ValueOf exV))) (take i [SinkFunc 0 exF]))
                          (send ([SinkFunc 0 exF] ! i) (ValueOf exV)) = Returns"
    using ne by (simp add: panicsIn_def)
  have b: "panicsIn exG ([] @ map (\<lambda>s. (s, send s (ValueOf exV))) [SinkFunc 0 exF])
                        (send (SinkFunc 1 exG) (ValueOf exV)) = Panics"
    by (simp add: panicsIn_def)
  from panic_aborts_delivery [OF i a b] i show ?thesis by (simp add: ValueOf_def)
qed

section \<open>The hub: what every reachable state satisfies\<close>

lemma add_index:
  "wf_store h \<Longrightarrow>
   index (fst (add h s t x)) (snd (add h s t x)) k = (if k = t then index h s t @ [x] else index h s k)"
  by (simp add: index_def [of "fst (add h s t x)"] add_lookup) (simp add: index_def)

lemma remove_index:
  "wf_store h \<Longrightarrow>
   index (fst (remove h s t x)) (snd (remove h s t x)) k
     = (if k = t then filter (\<lambda>c. c \<noteq> x) (index h s t) else index h s k)"
  by (simp add: index_def [of "fst (remove h s t x)"] remove_lookup)
     (simp add: index_def split: option.splits)

lemma add_allocated: "allocated (fst (add h s t x)) (snd (add h s t x))"
  by (simp add: add_unfold)

lemma remove_allocated:
  "allocated h s \<Longrightarrow> allocated (fst (remove h s t x)) (snd (remove h s t x))"
  by (cases "lookup h s t") (auto simp: remove_unfold)

lemma newSink_ok:
  assumes "newSink n l = (n', Inr (t, s))"
  shows "n' = Suc n \<and> addr s = n \<and> sinkKey s = Some t \<and> Kind t \<noteq> Interface"
proof (cases l)
  case NilValue
  with assms show ?thesis by (simp add: newSink_def)
next
  case (Val lt x)
  with assms show ?thesis
    by (auto simp: newSink_def ValueOf_def Let_def split: if_splits)
qed

lemma newSink_error: "newSink n l = (n', Inl err) \<Longrightarrow> n \<le> n'"
  by (cases l) (auto simp: newSink_def ValueOf_def Let_def split: if_splits)

lemma Subscribe_error:
  "newSink (nsinks w) l = (n, Inl err) \<Longrightarrow> Subscribe w l = (w\<lparr>nsinks := n\<rparr>, None, Some err)"
  by (simp add: Subscribe_def)

lemma Subscribe_ok:
  "newSink (nsinks w) l = (n, Inr (t, s)) \<Longrightarrow>
   Subscribe w l =
     (w\<lparr>maps := fst (add (maps w) (load w) (Some t) s), nsinks := n,
        cell := Some (snd (add (maps w) (load w) (Some t) s)),
        closures := closures w @ [\<lparr>cEventType = t, cSink = s, onceDone = False\<rparr>]\<rparr>,
      Some (length (closures w)), None)"
  by (simp add: Subscribe_def cancel_def store_def split: prod.splits)

lemma inv_New: "inv New"
  by (simp add: inv_def New_def load_def wf_store_def lookup_def)

lemma inv_Subscribe:
  assumes "inv w"
  shows "inv (fst (Subscribe w l))"
proof -
  obtain n res where ns: "newSink (nsinks w) l = (n, res)" by (cases "newSink (nsinks w) l")
  from assms have wf: "wf_store (maps w)"
    and keys: "\<And>k ss. lookup (maps w) (load w) k = Some ss \<Longrightarrow>
                 k \<noteq> None \<and> (\<forall>s\<in>set ss. addr s < nsinks w \<and> sinkKey s = k)"
    and cls: "\<And>cl. cl \<in> set (closures w) \<Longrightarrow>
                 addr (cSink cl) < nsinks w \<and> sinkKey (cSink cl) = Some (cEventType cl) \<and>
                 (onceDone cl \<longrightarrow> cSink cl \<notin> set (index (maps w) (load w) (Some (cEventType cl))))"
    by (auto simp: inv_def)
  show ?thesis
  proof (cases res)
    case (Inl err)
    with ns have le: "nsinks w \<le> n" by (auto dest: newSink_error)
    from assms have al: "allocated (maps w) (load w)" by (simp add: inv_def)
    have A: "k \<noteq> None \<and> (\<forall>s\<in>set ss. addr s < n \<and> sinkKey s = k)"
      if "lookup (maps w) (load w) k = Some ss" for k ss
      using keys [OF that] le by fastforce
    have B: "addr (cSink cl) < n \<and> sinkKey (cSink cl) = Some (cEventType cl) \<and>
             (onceDone cl \<longrightarrow> cSink cl \<notin> set (index (maps w) (load w) (Some (cEventType cl))))"
      if "cl \<in> set (closures w)" for cl
      using cls [OF that] le by fastforce
    have "inv (w\<lparr>nsinks := n\<rparr>)"
      unfolding inv_def using wf al A B by (simp add: load_def)
    with ns Inl show ?thesis by (simp add: Subscribe_error)
  next
    case (Inr p)
    obtain t s where p: "p = (t, s)" by (cases p)
    from ns Inr p have ok: "newSink (nsinks w) l = (n, Inr (t, s))" by simp
    from newSink_ok [OF ok] have n: "n = Suc (nsinks w)" and a: "addr s = nsinks w"
      and k: "sinkKey s = Some t" by simp_all
    let ?m = "fst (add (maps w) (load w) (Some t) s)"
    let ?new = "snd (add (maps w) (load w) (Some t) s)"
    let ?w = "w\<lparr>maps := ?m, nsinks := n, cell := Some ?new,
                 closures := closures w @ [\<lparr>cEventType = t, cSink = s, onceDone = False\<rparr>]\<rparr>"
    have old: "k \<noteq> None \<and> addr x < nsinks w \<and> sinkKey x = k"
      if "x \<in> set (index (maps w) (load w) k)" for k x
    proof (cases "lookup (maps w) (load w) k")
      case None
      with that show ?thesis by (simp add: index_def)
    next
      case (Some ss)
      with that have "x \<in> set ss" by (simp add: index_def)
      with keys [OF Some] show ?thesis by blast
    qed
    have 1: "wf_store (maps ?w)" using add_wf [OF wf] by simp
    have 2: "allocated (maps ?w) (load ?w)" by (simp add: load_def add_allocated)
    have 3: "k' \<noteq> None \<and> (\<forall>x\<in>set ss. addr x < nsinks ?w \<and> sinkKey x = k')"
      if "lookup (maps ?w) (load ?w) k' = Some ss" for k' ss
    proof (cases "k' = Some t")
      case True
      with that have "ss = index (maps w) (load w) (Some t) @ [s]"
        by (simp add: load_def add_lookup [OF wf])
      with True old [where k = "Some t"] a k n show ?thesis by (auto simp: less_Suc_eq)
    next
      case False
      with that have "lookup (maps w) (load w) k' = Some ss"
        by (simp add: load_def add_lookup [OF wf])
      from keys [OF this] n show ?thesis by (auto simp: less_Suc_eq)
    qed
    have 4: "addr (cSink cl) < nsinks ?w \<and> sinkKey (cSink cl) = Some (cEventType cl) \<and>
             (onceDone cl \<longrightarrow> cSink cl \<notin> set (index (maps ?w) (load ?w) (Some (cEventType cl))))"
      if "cl \<in> set (closures ?w)" for cl
    proof (cases "cl \<in> set (closures w)")
      case True
      from cls [OF True] have lt: "addr (cSink cl) < nsinks w"
        and sk: "sinkKey (cSink cl) = Some (cEventType cl)"
        and d: "onceDone cl \<Longrightarrow> cSink cl \<notin> set (index (maps w) (load w) (Some (cEventType cl)))"
        by simp_all
      from lt a have "cSink cl \<noteq> s" by auto
      with lt sk d n show ?thesis by (auto simp: load_def add_index [OF wf])
    next
      case False
      with that have "cl = \<lparr>cEventType = t, cSink = s, onceDone = False\<rparr>" by simp
      with a k n show ?thesis by simp
    qed
    have "inv ?w" unfolding inv_def using 1 2 3 4 by blast
    with ok show ?thesis by (simp add: Subscribe_ok)
  qed
qed

lemma Cancel_skip:
  "\<not> c < length (closures w) \<or> onceDone (closures w ! c) \<Longrightarrow> Cancel w c = w"
  by (auto simp: Cancel_def Let_def)

lemma Cancel_first:
  "c < length (closures w) \<Longrightarrow> \<not> onceDone (closures w ! c) \<Longrightarrow>
   Cancel w c =
     w\<lparr>maps := fst (remove (maps w) (load w) (Some (cEventType (closures w ! c))) (cSink (closures w ! c))),
       closures := (closures w)[c := (closures w ! c)\<lparr>onceDone := True\<rparr>],
       cell := Some (snd (remove (maps w) (load w) (Some (cEventType (closures w ! c)))
                            (cSink (closures w ! c))))\<rparr>"
  by (simp add: Cancel_def Let_def store_def split: prod.splits)

lemma inv_Cancel:
  assumes "inv w"
  shows "inv (Cancel w c)"
proof (cases "c < length (closures w) \<and> \<not> onceDone (closures w ! c)")
  case False
  then have "Cancel w c = w" by (auto simp: Cancel_skip)
  with assms show ?thesis by simp
next
  case True
  let ?cl = "closures w ! c"
  let ?t = "Some (cEventType ?cl)"
  let ?x = "cSink ?cl"
  let ?m = "fst (remove (maps w) (load w) ?t ?x)"
  let ?new = "snd (remove (maps w) (load w) ?t ?x)"
  let ?w = "w\<lparr>maps := ?m, closures := (closures w)[c := ?cl\<lparr>onceDone := True\<rparr>], cell := Some ?new\<rparr>"
  from assms have wf: "wf_store (maps w)" and al: "allocated (maps w) (load w)"
    and keys: "\<And>k ss. lookup (maps w) (load w) k = Some ss \<Longrightarrow>
                 k \<noteq> None \<and> (\<forall>s\<in>set ss. addr s < nsinks w \<and> sinkKey s = k)"
    and cls: "\<And>cl. cl \<in> set (closures w) \<Longrightarrow>
                 addr (cSink cl) < nsinks w \<and> sinkKey (cSink cl) = Some (cEventType cl) \<and>
                 (onceDone cl \<longrightarrow> cSink cl \<notin> set (index (maps w) (load w) (Some (cEventType cl))))"
    by (auto simp: inv_def)
  from True have mem: "?cl \<in> set (closures w)" by simp
  have sub: "set (index ?m ?new k) \<subseteq> set (index (maps w) (load w) k)" for k
    by (auto simp: remove_index [OF wf])
  have 1: "wf_store (maps ?w)" using remove_wf [OF wf] by simp
  have 2: "allocated (maps ?w) (load ?w)" using remove_allocated [OF al] by (simp add: load_def)
  have 3: "k \<noteq> None \<and> (\<forall>x\<in>set ss. addr x < nsinks ?w \<and> sinkKey x = k)"
    if "lookup (maps ?w) (load ?w) k = Some ss" for k ss
  proof -
    from that have l: "lookup ?m ?new k = Some ss" by (simp add: load_def)
    then obtain ss0 where l0: "lookup (maps w) (load w) k = Some ss0" and ss: "set ss \<subseteq> set ss0"
      by (auto simp: remove_lookup [OF wf] split: if_splits)
    from keys [OF l0] ss show ?thesis by auto
  qed
  have 4: "addr (cSink cl) < nsinks ?w \<and> sinkKey (cSink cl) = Some (cEventType cl) \<and>
           (onceDone cl \<longrightarrow> cSink cl \<notin> set (index (maps ?w) (load ?w) (Some (cEventType cl))))"
    if "cl \<in> set (closures ?w)" for cl
  proof -
    from that have "cl = ?cl\<lparr>onceDone := True\<rparr> \<or> cl \<in> set (closures w)"
      using set_update_subset_insert [of "closures w" c "?cl\<lparr>onceDone := True\<rparr>"] by auto
    then show ?thesis
    proof
      assume e: "cl = ?cl\<lparr>onceDone := True\<rparr>"
      have "?x \<notin> set (index ?m ?new ?t)" by (simp add: remove_index [OF wf])
      with e cls [OF mem] show ?thesis by (simp add: load_def)
    next
      assume "cl \<in> set (closures w)"
      from cls [OF this] sub [of "Some (cEventType cl)"] show ?thesis
        by (auto simp: load_def)
    qed
  qed
  have "inv ?w" unfolding inv_def using 1 2 3 4 by blast
  with True show ?thesis by (simp add: Cancel_first)
qed

lemma inv_foldl: "inv w \<Longrightarrow> inv (foldl step w cs)"
proof (induction cs arbitrary: w)
  case Nil
  then show ?case by simp
next
  case (Cons c cs)
  have "inv (step w c)" by (cases c) (simp_all add: inv_Subscribe inv_Cancel Cons.prems)
  from Cons.IH [OF this] show ?case by simp
qed

lemma inv_run: "inv (run cs)"
  unfolding run_def by (rule inv_foldl [OF inv_New])

section \<open>Publish on a new hub and with a nil event\<close>

lemma index_NilMap: "index h NilMap k = []"
  by (simp add: index_def lookup_def)

lemma inv_no_nil_key: "inv w \<Longrightarrow> index (maps w) (load w) None = []"
proof -
  assume i: "inv w"
  have "lookup (maps w) (load w) None = None"
  proof (cases "lookup (maps w) (load w) None")
    case (Some ss)
    with i show ?thesis unfolding inv_def by blast
  qed simp
  then show ?thesis by (simp add: index_def)
qed

text \<open>
  C10. On a hub fresh from \<open>New\<close> the cell is empty and \<open>load\<close> gives the nil map; every
  \<open>Publish\<close> on it delivers nothing and returns. On any hub, in whatever state subscribing
  and cancelling have left it, \<open>Publish\<close> of the nil value delivers nothing and returns.
\<close>

theorem Publish_total_on_new_and_nil:
  "cell New = None \<and> load New = NilMap \<and>
   Publish env New e tr = (tr, Returns) \<and>
   Publish env (run cs) NilValue tr = (tr, Returns)"
proof -
  have 1: "cell New = None \<and> load New = NilMap" by (simp add: New_def load_def)
  then have 2: "Publish env New e tr = (tr, Returns)"
    by (simp add: Publish_def publish_def index_NilMap)
  have 3: "Publish env (run cs) NilValue tr = (tr, Returns)"
    using inv_no_nil_key [OF inv_run, of cs] by (simp add: Publish_def publish_def)
  from 1 2 3 show ?thesis by simp
qed

theorem Publish_total_on_new_and_nil_witness:
  "Publish (panicsIn exF) New exV [] = ([], Returns) \<and>
   Publish (panicsIn exF) (run [DoSubscribe exF, DoSubscribe exC, DoCancel 1]) NilValue []
     = ([], Returns)"
  using Publish_total_on_new_and_nil [of "panicsIn exF" exV "[]" "[DoSubscribe exF, DoSubscribe exC, DoCancel 1]"]
  by simp

section \<open>Rejected listeners\<close>

lemma Subscribe_error_keeps:
  assumes "Subscribe w l = (w', c, Some err)"
  shows "c = None \<and> maps w' = maps w \<and> cell w' = cell w \<and> closures w' = closures w"
proof -
  obtain n res where ns: "newSink (nsinks w) l = (n, res)" by (cases "newSink (nsinks w) l")
  show ?thesis
  proof (cases res)
    case (Inl e)
    with ns assms show ?thesis by (auto simp: Subscribe_error)
  next
    case (Inr p)
    obtain t s where "p = (t, s)" by (cases p)
    with ns Inr assms show ?thesis by (simp add: Subscribe_ok)
  qed
qed

text \<open>
  C2. A nil candidate and a value that is neither function nor channel and has not exactly
  one method give \<open>ErrInvalidListener\<close>; a function, or the one method of a value, with
  other than one input or with an output gives \<open>ErrInvalidFunction\<close>; a receive-only
  channel gives \<open>ErrInvalidChannel\<close>; a function, a channel or a one-method value of the
  accepted shape whose event type is an interface gives \<open>ErrInvalidEventType\<close>. Whenever
  \<open>Subscribe\<close> returns an error the handle is nil, the cell, the map objects and the
  closures are what they were, and every \<open>Publish\<close> behaves as before the call.
\<close>

theorem Subscribe_rejects_invalid:
  assumes "Subscribe w l = (w', c, err)"
  shows "(l = NilValue \<longrightarrow> err = Some ErrInvalidListener) \<and>
         (\<forall>n ms x. l = Val (OtherT n ms) x \<and> length ms \<noteq> 1 \<longrightarrow> err = Some ErrInvalidListener) \<and>
         (\<forall>ins outs x. l = Val (FuncT ins outs) x \<and> (length ins \<noteq> 1 \<or> outs \<noteq> []) \<longrightarrow>
            err = Some ErrInvalidFunction) \<and>
         (\<forall>n m ins outs x. l = Val (OtherT n [(m, ins, outs)]) x \<and> (length ins \<noteq> 1 \<or> outs \<noteq> []) \<longrightarrow>
            err = Some ErrInvalidFunction) \<and>
         (\<forall>t x. l = Val (ChanT RecvDir t) x \<longrightarrow> err = Some ErrInvalidChannel) \<and>
         (\<forall>i x. l = Val (FuncT [InterfaceT i] []) x \<longrightarrow> err = Some ErrInvalidEventType) \<and>
         (\<forall>d i x. l = Val (ChanT d (InterfaceT i)) x \<and> d \<noteq> RecvDir \<longrightarrow>
            err = Some ErrInvalidEventType) \<and>
         (\<forall>n m i x. l = Val (OtherT n [(m, [InterfaceT i], [])]) x \<longrightarrow>
            err = Some ErrInvalidEventType) \<and>
         (err \<noteq> None \<longrightarrow>
            c = None \<and> cell w' = cell w \<and> maps w' = maps w \<and> closures w' = closures w \<and>
            Publish env w' e tr = Publish env w e tr)"
proof -
  have E: "err = Some x" if "snd (newSink (nsinks w) l) = Inl x" for x
    using that assms by (cases "newSink (nsinks w) l") (simp add: Subscribe_error)
  have 1: "l = NilValue \<Longrightarrow> err = Some ErrInvalidListener"
    by (rule E) (simp add: newSink_def)
  have 2: "l = Val (OtherT n ms) x \<Longrightarrow> length ms \<noteq> 1 \<Longrightarrow> err = Some ErrInvalidListener" for n ms x
    by (rule E) (simp add: newSink_def)
  have 3: "l = Val (FuncT ins outs) x \<Longrightarrow> length ins \<noteq> 1 \<or> outs \<noteq> [] \<Longrightarrow>
           err = Some ErrInvalidFunction" for ins outs x
    by (rule E) (auto simp: newSink_def)
  have 4: "l = Val (OtherT n [(m, ins, outs)]) x \<Longrightarrow> length ins \<noteq> 1 \<or> outs \<noteq> [] \<Longrightarrow>
           err = Some ErrInvalidFunction" for n m ins outs x
    by (rule E) (auto simp: newSink_def)
  have 5: "l = Val (ChanT RecvDir t) x \<Longrightarrow> err = Some ErrInvalidChannel" for t x
    by (rule E) (simp add: newSink_def)
  have 6: "l = Val (FuncT [InterfaceT i] []) x \<Longrightarrow> err = Some ErrInvalidEventType" for i x
    by (rule E) (simp add: newSink_def)
  have 7: "l = Val (ChanT d (InterfaceT i)) x \<Longrightarrow> d \<noteq> RecvDir \<Longrightarrow>
           err = Some ErrInvalidEventType" for d i x
    by (rule E) (simp add: newSink_def)
  have 8: "l = Val (OtherT n [(m, [InterfaceT i], [])]) x \<Longrightarrow> err = Some ErrInvalidEventType"
    for n m i x
    by (rule E) (simp add: newSink_def)
  have 9: "c = None \<and> cell w' = cell w \<and> maps w' = maps w \<and> closures w' = closures w \<and>
           Publish env w' e tr = Publish env w e tr" if "err \<noteq> None"
  proof -
    from that obtain x where "err = Some x" by auto
    with assms have "c = None \<and> maps w' = maps w \<and> cell w' = cell w \<and> closures w' = closures w"
      using Subscribe_error_keeps [of w l w' c x] by simp
    then show ?thesis by (simp add: Publish_def load_def)
  qed
  show ?thesis
  proof (intro conjI allI impI; (elim conjE)?)
    show "l = NilValue \<Longrightarrow> err = Some ErrInvalidListener" by (rule 1)
    show "\<And>n ms x. l = Val (OtherT n ms) x \<Longrightarrow> length ms \<noteq> 1 \<Longrightarrow> err = Some ErrInvalidListener"
      by (rule 2)
    show "\<And>ins outs x. l = Val (FuncT ins outs) x \<Longrightarrow> length ins \<noteq> 1 \<or> outs \<noteq> [] \<Longrightarrow>
            err = Some ErrInvalidFunction" by (rule 3)
    show "\<And>n m ins outs x. l = Val (OtherT n [(m, ins, outs)]) x \<Longrightarrow>
            length ins \<noteq> 1 \<or> outs \<noteq> [] \<Longrightarrow> err = Some ErrInvalidFunction" by (rule 4)
    show "\<And>t x. l = Val (ChanT RecvDir t) x \<Longrightarrow> err = Some ErrInvalidChannel" by (rule 5)
    show "\<And>i x. l = Val (FuncT [InterfaceT i] []) x \<Longrightarrow> err = Some ErrInvalidEventType"
      by (rule 6)
    show "\<And>d i x. l = Val (ChanT d (InterfaceT i)) x \<Longrightarrow> d \<noteq> RecvDir \<Longrightarrow>
            err = Some ErrInvalidEventType" by (rule 7)
    show "\<And>n m i x. l = Val (OtherT n [(m, [InterfaceT i], [])]) x \<Longrightarrow>
            err = Some ErrInvalidEventType" by (rule 8)
    show "err \<noteq> None \<Longrightarrow> c = None" using 9 by simp
    show "err \<noteq> None \<Longrightarrow> cell w' = cell w" using 9 by simp
    show "err \<noteq> None \<Longrightarrow> maps w' = maps w" using 9 by simp
    show "err \<noteq> None \<Longrightarrow> closures w' = closures w" using 9 by simp
    show "err \<noteq> None \<Longrightarrow> Publish env w' e tr = Publish env w e tr" using 9 by simp
  qed
qed

theorem Subscribe_rejects_invalid_witness:
  "snd (Subscribe New NilValue) = (None, Some ErrInvalidListener) \<and>
   snd (Subscribe New (Val (FuncT [evT, evT] []) 1)) = (None, Some ErrInvalidFunction) \<and>
   snd (Subscribe New (Val (ChanT RecvDir evT) 1)) = (None, Some ErrInvalidChannel) \<and>
   snd (Subscribe (run [DoSubscribe exF]) (Val (FuncT [InterfaceT ''io.Reader''] []) 1))
     = (None, Some ErrInvalidEventType) \<and>
   Publish allReturn (fst (Subscribe (run [DoSubscribe exF]) (Val (FuncT [InterfaceT ''io.Reader''] []) 1)))
       exV []
     = Publish allReturn (run [DoSubscribe exF]) exV []"
proof -
  have tr: "p = (fst p, fst (snd p), snd (snd p))" for p :: "world \<times> nat option \<times> error option"
    by simp
  let ?a = "Subscribe New NilValue"
  let ?b = "Subscribe New (Val (FuncT [evT, evT] []) 1)"
  let ?c = "Subscribe New (Val (ChanT RecvDir evT) 1)"
  let ?d = "Subscribe (run [DoSubscribe exF]) (Val (FuncT [InterfaceT ''io.Reader''] []) 1)"
  note ta = Subscribe_rejects_invalid [OF tr [of ?a]]
  note tb = Subscribe_rejects_invalid [OF tr [of ?b]]
  note tc = Subscribe_rejects_invalid [OF tr [of ?c]]
  note td = Subscribe_rejects_invalid [OF tr [of ?d], of allReturn exV "[]"]
  from ta have ea: "snd (snd ?a) = Some ErrInvalidListener" by blast
  with ta have a: "snd ?a = (None, Some ErrInvalidListener)" by (simp add: prod_eq_iff)
  from tb have eb: "snd (snd ?b) = Some ErrInvalidFunction" by (simp add: evT_def)
  with tb have b: "snd ?b = (None, Some ErrInvalidFunction)" by (simp add: prod_eq_iff)
  from tc have ec: "snd (snd ?c) = Some ErrInvalidChannel" by blast
  with tc have c: "snd ?c = (None, Some ErrInvalidChannel)" by (simp add: prod_eq_iff)
  from td have ed: "snd (snd ?d) = Some ErrInvalidEventType" by blast
  with td have d: "snd ?d = (None, Some ErrInvalidEventType)"
    and p: "Publish allReturn (fst ?d) exV [] = Publish allReturn (run [DoSubscribe exF]) exV []"
    by (simp_all add: prod_eq_iff)
  from a b c d p show ?thesis by simp
qed

section \<open>Cancellation\<close>

lemma run_snoc: "run (cs @ [c]) = step (run cs) c"
  by (simp add: run_def)

lemma run_append: "foldl step (run cs) cs' = run (cs @ cs')"
  by (simp add: run_def)

lemma closures_Subscribe:
  "c < length (closures w) \<Longrightarrow>
   c < length (closures (fst (Subscribe w l))) \<and> closures (fst (Subscribe w l)) ! c = closures w ! c"
proof -
  assume c: "c < length (closures w)"
  obtain n res where ns: "newSink (nsinks w) l = (n, res)" by (cases "newSink (nsinks w) l")
  show ?thesis
  proof (cases res)
    case (Inl err)
    with ns c show ?thesis by (simp add: Subscribe_error)
  next
    case (Inr p)
    obtain t s where "p = (t, s)" by (cases p)
    with ns Inr c show ?thesis by (simp add: Subscribe_ok nth_append)
  qed
qed

lemma closures_Cancel:
  "c < length (closures w) \<Longrightarrow>
   c < length (closures (Cancel w c')) \<and>
   cSink (closures (Cancel w c') ! c) = cSink (closures w ! c) \<and>
   cEventType (closures (Cancel w c') ! c) = cEventType (closures w ! c) \<and>
   (onceDone (closures w ! c) \<longrightarrow> onceDone (closures (Cancel w c') ! c))"
proof (cases "c' < length (closures w) \<and> \<not> onceDone (closures w ! c')")
  case False
  then have "Cancel w c' = w" by (auto simp: Cancel_skip)
  moreover assume "c < length (closures w)"
  ultimately show ?thesis by simp
next
  case True
  assume "c < length (closures w)"
  with True show ?thesis by (cases "c = c'") (simp_all add: Cancel_first)
qed

lemma closures_foldl:
  "c < length (closures w) \<Longrightarrow>
   c < length (closures (foldl step w cs)) \<and>
   cSink (closures (foldl step w cs) ! c) = cSink (closures w ! c) \<and>
   cEventType (closures (foldl step w cs) ! c) = cEventType (closures w ! c)"
proof (induction cs arbitrary: w)
  case Nil
  then show ?case by simp
next
  case (Cons x cs)
  have s: "c < length (closures (step w x)) \<and>
           cSink (closures (step w x) ! c) = cSink (closures w ! c) \<and>
           cEventType (closures (step w x) ! c) = cEventType (closures w ! c)"
    using closures_Subscribe [OF Cons.prems] closures_Cancel [OF Cons.prems] by (cases x) simp_all
  then have "c < length (closures (step w x))" by simp
  from Cons.IH [OF this] s show ?case by simp
qed

lemma Cancel_done:
  "c < length (closures w) \<Longrightarrow> onceDone (closures (Cancel w c) ! c)"
  by (cases "onceDone (closures w ! c)") (simp_all add: Cancel_skip Cancel_first)

lemma Cancel_twice: "Cancel (Cancel w c) c = Cancel w c"
proof (cases "c < length (closures w)")
  case True
  from Cancel_done [OF True] show ?thesis by (simp add: Cancel_skip)
next
  case False
  then show ?thesis by (simp add: Cancel_skip)
qed

lemma Cancel_funpow: "((\<lambda>u. Cancel u c) ^^ Suc n) w = Cancel w c"
  by (induction n) (simp_all add: Cancel_twice)

lemma inv_sink_key:
  assumes "inv w" and "x \<in> set (index (maps w) (load w) k)"
  shows "sinkKey x = k"
proof (cases "lookup (maps w) (load w) k")
  case None
  with assms(2) show ?thesis by (simp add: index_def)
next
  case (Some ss)
  with assms(2) have "x \<in> set ss" by (simp add: index_def)
  with assms(1) Some show ?thesis unfolding inv_def by blast
qed

lemma Cancel_index:
  assumes "inv w" and "c < length (closures w)"
  shows "index (maps (Cancel w c)) (load (Cancel w c)) k
           = filter (\<lambda>x. x \<noteq> cSink (closures w ! c)) (index (maps w) (load w) k)"
proof -
  let ?cl = "closures w ! c"
  from assms have mem: "?cl \<in> set (closures w)" by simp
  with assms(1) have sk: "sinkKey (cSink ?cl) = Some (cEventType ?cl)"
    and d: "onceDone ?cl \<Longrightarrow> cSink ?cl \<notin> set (index (maps w) (load w) (Some (cEventType ?cl)))"
    and wf: "wf_store (maps w)"
    unfolding inv_def by blast+
  have other: "cSink ?cl \<notin> set (index (maps w) (load w) k)" if "k \<noteq> Some (cEventType ?cl)"
    using inv_sink_key [OF assms(1), of "cSink ?cl" k] sk that by auto
  show ?thesis
  proof (cases "onceDone ?cl")
    case True
    from d [OF True] other have "cSink ?cl \<notin> set (index (maps w) (load w) k)"
      by (cases "k = Some (cEventType ?cl)") simp_all
    then have "filter (\<lambda>x. x \<noteq> cSink ?cl) (index (maps w) (load w) k) = index (maps w) (load w) k"
      by (auto simp: filter_id_conv)
    with True show ?thesis by (simp add: Cancel_skip)
  next
    case False
    show ?thesis
    proof (cases "k = Some (cEventType ?cl)")
      case True
      with False assms(2) show ?thesis
        by (simp add: Cancel_first load_def remove_index [OF wf])
    next
      case k: False
      from other [OF k]
      have "filter (\<lambda>x. x \<noteq> cSink ?cl) (index (maps w) (load w) k) = index (maps w) (load w) k"
        by (auto simp: filter_id_conv)
      with False k assms(2) show ?thesis
        by (simp add: Cancel_first load_def remove_index [OF wf])
    qed
  qed
qed

lemma sendAll_sinks:
  assumes "d \<in> set (drop (length tr) (fst (sendAll env ss v tr)))"
  shows "fst d \<in> set ss"
proof -
  from sendAll_shape [OF surjective_pairing [of "sendAll env ss v tr"]]
  obtain n where "fst (sendAll env ss v tr) = tr @ map (\<lambda>s. (s, send s v)) (take n ss)"
    by blast
  with assms have "d \<in> set (map (\<lambda>s. (s, send s v)) (take n ss))" by simp
  then have "fst d \<in> set (take n ss)" by auto
  then show ?thesis by (rule in_set_takeD)
qed

lemma Subscribe_handle:
  assumes "inv w" and "Subscribe w l = (w1, Some c, None)"
  shows "c < length (closures w1) \<and>
         cSink (closures w1 ! c) \<in> set (index (maps w1) (load w1) (Some (cEventType (closures w1 ! c))))"
proof -
  obtain n res where ns: "newSink (nsinks w) l = (n, res)" by (cases "newSink (nsinks w) l")
  from assms(1) have wf: "wf_store (maps w)" by (simp add: inv_def)
  show ?thesis
  proof (cases res)
    case (Inl err)
    with ns assms(2) show ?thesis by (simp add: Subscribe_error)
  next
    case (Inr p)
    obtain t s where "p = (t, s)" by (cases p)
    with ns Inr have ok: "newSink (nsinks w) l = (n, Inr (t, s))" by simp
    from assms(2) show ?thesis
      unfolding Subscribe_ok [OF ok] by (auto simp: load_def add_index [OF wf])
  qed
qed

lemma sendAll_extends: "\<exists>ds. fst (sendAll env ss v tr) = tr @ ds"
  using sendAll_shape [OF surjective_pairing [of "sendAll env ss v tr"]] by blast

lemma news_Cons:
  "drop (length tr) (fst (sendAll env (s # ss) v tr))
     = (s, send s v) #
       (if env tr (send s v) = Returns
        then drop (length (tr @ [(s, send s v)])) (fst (sendAll env ss v (tr @ [(s, send s v)])))
        else [])"
proof (cases "env tr (send s v)")
  case Returns
  obtain ds where ds: "fst (sendAll env ss v (tr @ [(s, send s v)])) = (tr @ [(s, send s v)]) @ ds"
    using sendAll_extends by blast
  with Returns show ?thesis by simp
qed simp_all

lemma sendAll_filter_stateless:
  "d \<in> set (drop (length tr) (fst (sendAll (\<lambda>t. env0) ss v tr))) \<Longrightarrow> P (fst d) \<Longrightarrow>
   d \<in> set (drop (length tr') (fst (sendAll (\<lambda>t. env0) (filter P ss) v tr')))"
proof (induction ss arbitrary: tr tr')
  case Nil
  then show ?case by simp
next
  case (Cons s ss)
  let ?D = "(s, send s v)"
  show ?case
  proof (cases "d = ?D")
    case True
    with Cons.prems(2) have "P s" by simp
    with True show ?thesis by (simp add: news_Cons del: sendAll.simps)
  next
    case False
    with Cons.prems(1) have r: "env0 (send s v) = Returns"
      and d: "d \<in> set (drop (length (tr @ [?D])) (fst (sendAll (\<lambda>t. env0) ss v (tr @ [?D]))))"
      by (auto simp: news_Cons simp del: sendAll.simps split: if_splits)
    show ?thesis
    proof (cases "P s")
      case True
      from Cons.IH [OF d Cons.prems(2), of "tr' @ [?D]"] True r show ?thesis
        by (simp add: news_Cons del: sendAll.simps)
    next
      case False
      from Cons.IH [OF d Cons.prems(2), of tr'] False show ?thesis by simp
    qed
  qed
qed

text \<open>
  C6. Take the handle that a successful \<open>Subscribe\<close> returned, on any hub, and let
  anything be subscribed or cancelled since. The handle is still bound to the type and
  the sink of its subscription. Calling it any number of times, once or more, leaves the
  hub in the state that one call leaves it in. In that state every list of the registry is
  the list from before the call without the subscription's sink, all other sinks staying
  in their order; so \<open>Publish\<close> goes through the same sinks as before except that one, and
  no event of any type is delivered to it any more. With listeners whose behaviour does
  not depend on what was delivered before, every delivery to another sink that a \<open>Publish\<close>
  made before the call is still made after it.
\<close>

theorem cancel_is_one_shot:
  assumes "Subscribe (run cs) l = (w1, Some c, None)"
    and "s = cSink (closures w1 ! c)"
    and "w = foldl step w1 cs'"
    and "w' = Cancel w c"
  shows "s \<in> set (index (maps w1) (load w1) (Some (cEventType (closures w1 ! c)))) \<and>
         c < length (closures w) \<and> cSink (closures w ! c) = s \<and>
         cEventType (closures w ! c) = cEventType (closures w1 ! c) \<and>
         ((\<lambda>u. Cancel u c) ^^ Suc n) w = w' \<and>
         index (maps w') (load w') k = filter (\<lambda>x. x \<noteq> s) (index (maps w) (load w) k) \<and>
         Publish env w' e tr
           = sendAll env (filter (\<lambda>x. x \<noteq> s) (index (maps w) (load w) (TypeOf e))) (ValueOf e) tr \<and>
         (\<forall>d\<in>set (drop (length tr) (fst (Publish env w' e tr))). fst d \<noteq> s) \<and>
         (\<forall>d\<in>set (drop (length tr) (fst (Publish (\<lambda>t. env0) w e tr))).
            fst d \<noteq> s \<longrightarrow> d \<in> set (drop (length tr) (fst (Publish (\<lambda>t. env0) w' e tr))))"
proof -
  from assms(1) have w1: "w1 = run (cs @ [DoSubscribe l])" by (simp add: run_snoc)
  with assms(3) have w: "w = run (cs @ [DoSubscribe l] @ cs')" by (simp add: run_append)
  have iw: "inv w" unfolding w by (rule inv_run)
  from Subscribe_handle [OF inv_run assms(1)] assms(2)
  have c1: "c < length (closures w1)"
    and reg: "s \<in> set (index (maps w1) (load w1) (Some (cEventType (closures w1 ! c))))"
    by simp_all
  from closures_foldl [OF c1, of cs'] assms(2,3)
  have c: "c < length (closures w)" and cs: "cSink (closures w ! c) = s"
    and ct: "cEventType (closures w ! c) = cEventType (closures w1 ! c)"
    by simp_all
  have idem: "((\<lambda>u. Cancel u c) ^^ Suc n) w = w'"
    unfolding assms(4) by (rule Cancel_funpow)
  have ix: "index (maps w') (load w') k = filter (\<lambda>x. x \<noteq> s) (index (maps w) (load w) k)" for k
    unfolding assms(4) using Cancel_index [OF iw c] cs by simp
  have pub: "Publish env w' e tr
               = sendAll env (filter (\<lambda>x. x \<noteq> s) (index (maps w) (load w) (TypeOf e))) (ValueOf e) tr"
    by (simp add: Publish_def publish_def ix)
  have nod: "fst d \<noteq> s" if "d \<in> set (drop (length tr) (fst (Publish env w' e tr)))" for d
  proof -
    from that have "fst d \<in> set (filter (\<lambda>x. x \<noteq> s) (index (maps w) (load w) (TypeOf e)))"
      unfolding pub by (rule sendAll_sinks)
    then show ?thesis by simp
  qed
  have still: "d \<in> set (drop (length tr) (fst (Publish (\<lambda>t. env0) w' e tr)))"
    if "d \<in> set (drop (length tr) (fst (Publish (\<lambda>t. env0) w e tr)))" and "fst d \<noteq> s" for d
    using sendAll_filter_stateless [of d tr env0 "index (maps w) (load w) (TypeOf e)" "ValueOf e"
        "\<lambda>x. x \<noteq> s" tr] that
    by (simp add: Publish_def publish_def ix)
  show ?thesis
  proof (intro conjI ballI impI)
    show "s \<in> set (index (maps w1) (load w1) (Some (cEventType (closures w1 ! c))))" by (rule reg)
    show "c < length (closures w)" by (rule c)
    show "cSink (closures w ! c) = s" by (rule cs)
    show "cEventType (closures w ! c) = cEventType (closures w1 ! c)" by (rule ct)
    show "((\<lambda>u. Cancel u c) ^^ Suc n) w = w'" by (rule idem)
    show "index (maps w') (load w') k = filter (\<lambda>x. x \<noteq> s) (index (maps w) (load w) k)"
      by (rule ix)
    show "Publish env w' e tr
            = sendAll env (filter (\<lambda>x. x \<noteq> s) (index (maps w) (load w) (TypeOf e))) (ValueOf e) tr"
      by (rule pub)
    show "\<And>d. d \<in> set (drop (length tr) (fst (Publish env w' e tr))) \<Longrightarrow> fst d \<noteq> s"
      by (rule nod)
    show "\<And>d. d \<in> set (drop (length tr) (fst (Publish (\<lambda>t. env0) w e tr))) \<Longrightarrow> fst d \<noteq> s \<Longrightarrow>
            d \<in> set (drop (length tr) (fst (Publish (\<lambda>t. env0) w' e tr)))"
      by (rule still)
  qed
qed

theorem cancel_is_one_shot_witness:
  "Subscribe (run []) exF = (run [DoSubscribe exF], Some 0, None) \<and>
   index (maps (run [DoSubscribe exF, DoSubscribe exG])) (load (run [DoSubscribe exF, DoSubscribe exG]))
         (Some evT) = [SinkFunc 0 exF, SinkFunc 1 exG] \<and>
   Cancel (Cancel (run [DoSubscribe exF, DoSubscribe exG]) 0) 0
     = Cancel (run [DoSubscribe exF, DoSubscribe exG]) 0 \<and>
   index (maps (Cancel (run [DoSubscribe exF, DoSubscribe exG]) 0))
         (load (Cancel (run [DoSubscribe exF, DoSubscribe exG]) 0)) (Some evT) = [SinkFunc 1 exG] \<and>
   Publish allReturn (Cancel (run [DoSubscribe exF, DoSubscribe exG]) 0) exV []
     = ([(SinkFunc 1 exG, Call exG [exV])], Returns)"
proof -
  let ?w1 = "run [DoSubscribe exF]"
  let ?w = "run [DoSubscribe exF, DoSubscribe exG]"
  let ?w' = "Cancel ?w 0"
  have sub: "Subscribe (run []) exF = (?w1, Some 0, None)" by code_simp
  have s: "SinkFunc 0 exF = cSink (closures ?w1 ! 0)" by code_simp
  have w: "?w = foldl step ?w1 [DoSubscribe exG]" by (simp add: run_def)
  have ix: "index (maps ?w) (load ?w) (Some evT) = [SinkFunc 0 exF, SinkFunc 1 exG]" by code_simp
  have ty: "TypeOf exV = Some evT" by (simp add: exV_def)
  have ne: "exF \<noteq> exG" by (simp add: exF_def exG_def)
  note t = cancel_is_one_shot [OF sub s w refl, of "Suc 0" "Some evT" allReturn exV "[]"]
  from t have 1: "Cancel (Cancel ?w 0) 0 = ?w'" by simp
  from t have 2: "index (maps ?w') (load ?w') (Some evT)
                    = filter (\<lambda>x. x \<noteq> SinkFunc 0 exF) (index (maps ?w) (load ?w) (Some evT))"
    by blast
  from t have 3: "Publish allReturn ?w' exV []
                    = sendAll allReturn (filter (\<lambda>x. x \<noteq> SinkFunc 0 exF)
                                                (index (maps ?w) (load ?w) (TypeOf exV))) (ValueOf exV) []"
    by blast
  from 2 ne have i2: "index (maps ?w') (load ?w') (Some evT) = [SinkFunc 1 exG]" by (simp add: ix)
  from 3 ne have p3: "Publish allReturn ?w' exV [] = ([(SinkFunc 1 exG, Call exG [exV])], Returns)"
    by (simp add: ty ix ValueOf_def allReturn_def)
  from sub ix 1 i2 p3 show ?thesis by simp
qed

section \<open>Subscribing a function\<close>







end
